theory Spec2Isabelle
  imports Main "HOL-Library.Word"
begin

unbundle bit_operations_syntax

section \<open>The PTY helper: data\<close>

text \<open>
  \<^verbatim>\<open>resources/pty-helper.py\<close> allocates a pseudo-terminal, starts a command in it
  and relays bytes between its own standard streams and the master descriptor, with
  window-size records arriving on descriptor 3. The program is one function,
  \<^verbatim>\<open>main\<close>, whose every step is a call into the operating system. The model
  passes the answers of the operating system in as data and returns the log of the
  calls that were made, together with the way the function ended.
\<close>

type_synonym byte = "8 word"
type_synonym bytes = "byte list"

text \<open>
  The error numbers the source names (\<^verbatim>\<open>errno.EINTR\<close>, \<^verbatim>\<open>errno.EAGAIN\<close>,
  \<^verbatim>\<open>errno.EIO\<close>), the two behind \<^verbatim>\<open>ProcessLookupError\<close> and
  \<^verbatim>\<open>PermissionError\<close>, and \<open>Errno n\<close> for any error number that has no name here.
\<close>

datatype errno = EPERM | ESRCH | EINTR | EIO | EBADF | EAGAIN | EPIPE | Errno nat

text \<open>The exceptions that can travel through \<^verbatim>\<open>main\<close>.\<close>

datatype exn = OSError errno | KeyboardInterrupt | SystemExit int

text \<open>
  \<^verbatim>\<open>ProcessLookupError\<close> is the subclass of \<^verbatim>\<open>OSError\<close> that Python raises
  for the error number \<^verbatim>\<open>ESRCH\<close>.
\<close>

fun is_ProcessLookupError :: "exn \<Rightarrow> bool" where
  "is_ProcessLookupError (OSError ESRCH) = True"
| "is_ProcessLookupError _ = False"

fun is_OSError :: "exn \<Rightarrow> bool" where
  "is_OSError (OSError _) = True"
| "is_OSError _ = False"

datatype ioctl_request = TIOCSWINSZ

text \<open>One entry of the log for each call that leaves the process, with its answer.\<close>

datatype call =
    Print_stderr string
  | Pty_fork "exn + int \<times> int"
  | Execve string "string list" "string \<Rightarrow> string option" "exn option"
  | Select "int list" "exn + int list"
  | Read int nat "exn + bytes"
  | Stdout_write bytes "exn option"
  | Stdout_flush "exn option"
  | Write int bytes "exn + nat"
  | Ioctl int ioctl_request bytes "exn option"
  | Kill int int "exn option"
  | Close int "exn option"

text \<open>
  What the operating system answers during one turn of the loop: the descriptors that
  are readable (or the exception \<^verbatim>\<open>select.select\<close> raises), and the answer to each
  call the turn can make. A field is looked at only when the call is made.
\<close>

record io_event =
  ready :: "exn + int list"
  master_read :: "exn + bytes"
  stdout_write :: "exn option"
  stdout_flush :: "exn option"
  stdin_read :: "exn + bytes"
  master_write :: "exn + nat"
  ctl_read :: "exn + bytes"
  ioctl_result :: "exn option"

text \<open>The answers for a whole run.\<close>

record os =
  fork_result :: "exn + int \<times> int"
  execve_result :: "exn option"
  events :: "io_event list"
  kill_result :: "exn option"
  close_result :: "exn option"

text \<open>How control leaves a handler of the loop body.\<close>

datatype flow = Next | Continue | Break | Raise exn

text \<open>How the loop ended, and how \<^verbatim>\<open>main\<close> ended.\<close>

datatype loop_end = Broke | Raised exn

datatype outcome = Returned | Propagated exn | Replaced

section \<open>The system calls\<close>

text \<open>\<^verbatim>\<open>os.read(fd, n)\<close> returns at most \<open>n\<close> bytes.\<close>

definition os_read :: "nat \<Rightarrow> exn + bytes \<Rightarrow> exn + bytes" where
  "os_read n r = (case r of Inl e \<Rightarrow> Inl e | Inr b \<Rightarrow> Inr (take n b))"

text \<open>\<^verbatim>\<open>os.write(fd, buf)\<close> returns the number of bytes written, at most \<open>len(buf)\<close>.\<close>

definition os_write :: "bytes \<Rightarrow> exn + nat \<Rightarrow> exn + nat" where
  "os_write buf r = (case r of Inl e \<Rightarrow> Inl e | Inr n \<Rightarrow> Inr (min n (length buf)))"

text \<open>
  \<^verbatim>\<open>select.select(fds, [], [])\<close> returns the watched descriptors that are readable, in
  the order of \<open>fds\<close>.
\<close>

definition select_call :: "int list \<Rightarrow> exn + int list \<Rightarrow> exn + int list" where
  "select_call fds r = (case r of Inl e \<Rightarrow> Inl e | Inr rdy \<Rightarrow> Inr (filter (\<lambda>d. d \<in> set rdy) fds))"

section \<open>The loop body\<close>

text \<open>
  The \<^verbatim>\<open>except OSError\<close> clause of the master handler (lines 52 to 57), and the one
  shared in shape by the other two handlers (lines 65 to 68 and 77 to 80). Any other
  exception is not caught there.
\<close>

definition master_except :: "exn \<Rightarrow> flow" where
  "master_except e =
     (case e of
        OSError n \<Rightarrow>
          if n = EINTR \<or> n = EAGAIN then Continue
          else if n = EIO then Break
          else Break
      | _ \<Rightarrow> Raise e)"

definition other_except :: "exn \<Rightarrow> flow" where
  "other_except e =
     (case e of
        OSError n \<Rightarrow> if n = EINTR \<or> n = EAGAIN then Continue else Break
      | _ \<Rightarrow> Raise e)"

text \<open>Lines 45 to 57: the master is readable.\<close>

definition handle_master :: "int \<Rightarrow> io_event \<Rightarrow> call list \<times> flow" where
  "handle_master fd ev =
     (let r = os_read 32768 (master_read ev) in
      case r of
        Inl e \<Rightarrow> ([Read fd 32768 r], master_except e)
      | Inr buf \<Rightarrow>
          if length buf = 0 then ([Read fd 32768 r], Break)
          else
            (case stdout_write ev of
               Some e \<Rightarrow> ([Read fd 32768 r, Stdout_write buf (Some e)], master_except e)
             | None \<Rightarrow>
                 (case stdout_flush ev of
                    Some e \<Rightarrow>
                      ([Read fd 32768 r, Stdout_write buf None, Stdout_flush (Some e)],
                       master_except e)
                  | None \<Rightarrow>
                      ([Read fd 32768 r, Stdout_write buf None, Stdout_flush None], Next))))"

text \<open>
  Lines 59 to 68: descriptor 0 is readable. The value \<^verbatim>\<open>os.write\<close> returns is not
  looked at.
\<close>

definition handle_stdin :: "int \<Rightarrow> io_event \<Rightarrow> call list \<times> flow" where
  "handle_stdin fd ev =
     (let r = os_read 32768 (stdin_read ev) in
      case r of
        Inl e \<Rightarrow> ([Read 0 32768 r], other_except e)
      | Inr buf \<Rightarrow>
          if length buf = 0 then ([Read 0 32768 r], Break)
          else
            (let w = os_write buf (master_write ev) in
             case w of
               Inl e \<Rightarrow> ([Read 0 32768 r, Write fd buf w], other_except e)
             | Inr n \<Rightarrow> ([Read 0 32768 r, Write fd buf w], Next)))"

text \<open>Lines 70 to 80: descriptor 3 is readable. The watch set is returned with the flow.\<close>

definition handle_ctl :: "int \<Rightarrow> int list \<Rightarrow> io_event \<Rightarrow> call list \<times> int list \<times> flow" where
  "handle_ctl fd fds ev =
     (let r = os_read 8 (ctl_read ev) in
      case r of
        Inl e \<Rightarrow> ([Read 3 8 r], fds, other_except e)
      | Inr winsize \<Rightarrow>
          if length winsize = 0 then ([Read 3 8 r], [fd, 0], Next)
          else if length winsize = 8 then
            (case ioctl_result ev of
               Some e \<Rightarrow> ([Read 3 8 r, Ioctl fd TIOCSWINSZ winsize (Some e)], fds, other_except e)
             | None \<Rightarrow> ([Read 3 8 r, Ioctl fd TIOCSWINSZ winsize None], fds, Next))
          else ([Read 3 8 r], fds, Next))"

text \<open>
  Lines 45 to 80, after \<^verbatim>\<open>select\<close> returned \<open>rfds\<close>: the three handlers in order; a
  \<^verbatim>\<open>continue\<close>, a \<^verbatim>\<open>break\<close> or an exception in one skips the handlers after it.
\<close>

definition body :: "int \<Rightarrow> int list \<Rightarrow> int list \<Rightarrow> io_event \<Rightarrow> call list \<times> int list \<times> flow" where
  "body fd fds rfds ev =
     (case (if fd \<in> set rfds then handle_master fd ev else ([], Next)) of
        (l1, f1) \<Rightarrow>
          if f1 \<noteq> Next then (l1, fds, f1)
          else
            (case (if 0 \<in> set rfds then handle_stdin fd ev else ([], Next)) of
               (l2, f2) \<Rightarrow>
                 if f2 \<noteq> Next then (l1 @ l2, fds, f2)
                 else
                   (case (if 3 \<in> set rfds then handle_ctl fd fds ev else ([], fds, Next)) of
                      (l3, fds', f3) \<Rightarrow> (l1 @ l2 @ l3, fds', f3))))"

section \<open>The loop, the cleanup and \<^verbatim>\<open>main\<close>\<close>

text \<open>
  Lines 42 to 80. Each turn takes one event; \<^verbatim>\<open>select\<close> has no timeout, so when no
  event is left the loop waits for ever and the result is \<open>None\<close>.
\<close>

fun loop :: "int \<Rightarrow> int list \<Rightarrow> io_event list \<Rightarrow> (call list \<times> loop_end) option" where
  "loop fd fds [] = None"
| "loop fd fds (ev # evs) =
     (let s = select_call fds (ready ev) in
      case s of
        Inl e \<Rightarrow> Some ([Select fds s], Raised e)
      | Inr rfds \<Rightarrow>
          (case body fd fds rfds ev of
             (l, fds', fl) \<Rightarrow>
               (case fl of
                  Break \<Rightarrow> Some (Select fds s # l, Broke)
                | Raise e \<Rightarrow> Some (Select fds s # l, Raised e)
                | _ \<Rightarrow>
                    (case loop fd fds' evs of
                       None \<Rightarrow> None
                     | Some (l', r) \<Rightarrow> Some (Select fds s # l @ l', r)))))"

text \<open>
  Lines 84 to 92, the \<^verbatim>\<open>finally\<close> clause: the exception it raises, if any, with the
  calls it made.
\<close>

definition cleanup :: "int \<Rightarrow> int \<Rightarrow> os \<Rightarrow> call list \<times> exn option" where
  "cleanup pid fd w =
     (let k = kill_result w;
          killed = (case k of None \<Rightarrow> None
                    | Some e \<Rightarrow> if is_ProcessLookupError e then None else Some e)
      in case killed of
           Some e \<Rightarrow> ([Kill pid 9 k], Some e)
         | None \<Rightarrow>
             (let c = close_result w;
                  closed = (case c of None \<Rightarrow> None
                            | Some e \<Rightarrow> if is_OSError e then None else Some e)
              in ([Kill pid 9 k, Close fd c], closed)))"

definition usage :: string where
  "usage = ''Usage: pty-helper.py <command> [args...]''"

text \<open>
  Lines 23 to 92. \<open>pid = 0\<close> is the child after the fork: \<^verbatim>\<open>os.execve\<close> replaces the
  program or raises. In the parent, an exception of the loop other than
  \<^verbatim>\<open>KeyboardInterrupt\<close> is raised again after the \<^verbatim>\<open>finally\<close> clause, unless that
  clause raised one of its own.
\<close>

definition main :: "string list \<Rightarrow> (string \<Rightarrow> string option) \<Rightarrow> os \<Rightarrow> (call list \<times> outcome) option" where
  "main argv environ w =
     (if length argv < 2 then Some ([Print_stderr usage], Propagated (SystemExit 1))
      else
        (let cmd_path = argv ! 1;
             cmd_argv = drop 1 argv;
             env = environ(''TERM'' \<mapsto> ''xterm-256color'', ''FORCE_COLOR'' \<mapsto> ''1'')
         in case fork_result w of
              Inl e \<Rightarrow> Some ([Pty_fork (Inl e)], Propagated e)
            | Inr (pid, fd) \<Rightarrow>
                if pid = 0 then
                  (case execve_result w of
                     None \<Rightarrow>
                       Some ([Pty_fork (Inr (pid, fd)), Execve cmd_path cmd_argv env None],
                             Replaced)
                   | Some e \<Rightarrow>
                       Some ([Pty_fork (Inr (pid, fd)), Execve cmd_path cmd_argv env (Some e)],
                             Propagated e))
                else
                  (case loop fd [fd, 0, 3] (events w) of
                     None \<Rightarrow> None
                   | Some (l, r) \<Rightarrow>
                       (case cleanup pid fd w of
                          (lc, cr) \<Rightarrow>
                            Some (Pty_fork (Inr (pid, fd)) # l @ lc,
                                  (case cr of
                                     Some e' \<Rightarrow> Propagated e'
                                   | None \<Rightarrow>
                                       (case r of
                                          Broke \<Rightarrow> Returned
                                        | Raised e \<Rightarrow>
                                            if e = KeyboardInterrupt then Returned
                                            else Propagated e)))))))"

section \<open>What a log says\<close>

text \<open>
  The bytes that reads of descriptor 0 returned, and the bytes that writes to the
  descriptor \<open>fd\<close> put there: of a write that returned \<open>n\<close>, the first \<open>n\<close> bytes
  of its buffer.
\<close>

fun stdin_bytes :: "call \<Rightarrow> bytes" where
  "stdin_bytes (Read d n (Inr b)) = (if d = 0 then b else [])"
| "stdin_bytes _ = []"

definition delivered :: "call list \<Rightarrow> bytes" where
  "delivered l = concat (map stdin_bytes l)"

fun written_bytes :: "int \<Rightarrow> call \<Rightarrow> bytes" where
  "written_bytes fd (Write d buf (Inr n)) = (if d = fd then take n buf else [])"
| "written_bytes fd _ = []"

definition forwarded :: "int \<Rightarrow> call list \<Rightarrow> bytes" where
  "forwarded fd l = concat (map (written_bytes fd) l)"

text \<open>The watch set of each turn: the first argument of each \<^verbatim>\<open>select\<close>.\<close>

fun select_fds :: "call \<Rightarrow> int list list" where
  "select_fds (Select fds r) = [fds]"
| "select_fds _ = []"

definition watch_sets :: "call list \<Rightarrow> int list list" where
  "watch_sets l = concat (map select_fds l)"

text \<open>The two calls of the \<^verbatim>\<open>finally\<close> clause.\<close>

fun is_kill :: "call \<Rightarrow> bool" where
  "is_kill (Kill p s r) = True"
| "is_kill _ = False"

fun is_close :: "call \<Rightarrow> bool" where
  "is_close (Close d r) = True"
| "is_close _ = False"

fun is_fork :: "call \<Rightarrow> bool" where
  "is_fork (Pty_fork r) = True"
| "is_fork _ = False"

section \<open>The window-size record\<close>

text \<open>
  Modelled from the spec: the source hands the eight bytes to
  \<^verbatim>\<open>fcntl.ioctl(fd, termios.TIOCSWINSZ, winsize)\<close> and never looks inside; the record
  itself is built by the writer of descriptor 3 and read by the kernel, neither of which
  is in the source. Section 3 of the specification: four 16-bit unsigned fields, rows,
  columns and two reserved ones, in the byte order of the platform.
\<close>

datatype byteorder = Little_endian | Big_endian

record winsize =
  ws_row :: "16 word"
  ws_col :: "16 word"
  ws_xpixel :: "16 word"
  ws_ypixel :: "16 word"

definition u16_bytes :: "byteorder \<Rightarrow> 16 word \<Rightarrow> bytes" where
  "u16_bytes bo x =
     (case bo of
        Little_endian \<Rightarrow> [ucast x, ucast (drop_bit 8 x)]
      | Big_endian \<Rightarrow> [ucast (drop_bit 8 x), ucast x])"

definition u16_of :: "byteorder \<Rightarrow> byte \<Rightarrow> byte \<Rightarrow> 16 word" where
  "u16_of bo a b =
     (case bo of
        Little_endian \<Rightarrow> ucast a OR push_bit 8 (ucast b)
      | Big_endian \<Rightarrow> ucast b OR push_bit 8 (ucast a))"

definition winsize_record :: "byteorder \<Rightarrow> winsize \<Rightarrow> bytes" where
  "winsize_record bo s =
     u16_bytes bo (ws_row s) @ u16_bytes bo (ws_col s) @
     u16_bytes bo (ws_xpixel s) @ u16_bytes bo (ws_ypixel s)"

fun decode_winsize :: "byteorder \<Rightarrow> bytes \<Rightarrow> winsize option" where
  "decode_winsize bo [a, b, c, d, e, f, g, h] =
     Some \<lparr>ws_row = u16_of bo a b, ws_col = u16_of bo c d,
           ws_xpixel = u16_of bo e f, ws_ypixel = u16_of bo g h\<rparr>"
| "decode_winsize bo _ = None"

text \<open>
  The window size of the terminal behind \<open>fd\<close> after the calls of a log: each
  \<^verbatim>\<open>TIOCSWINSZ\<close> on \<open>fd\<close> that succeeded sets it to what the kernel reads in the bytes.
\<close>

fun resize :: "byteorder \<Rightarrow> int \<Rightarrow> winsize option \<Rightarrow> call \<Rightarrow> winsize option" where
  "resize bo fd ws (Ioctl d TIOCSWINSZ b None) =
     (if d = fd then (case decode_winsize bo b of Some s \<Rightarrow> Some s | None \<Rightarrow> ws) else ws)"
| "resize bo fd ws _ = ws"

definition window_size :: "byteorder \<Rightarrow> int \<Rightarrow> winsize option \<Rightarrow> call list \<Rightarrow> winsize option" where
  "window_size bo fd ws l = foldl (resize bo fd) ws l"

section \<open>Sample answers of the operating system\<close>

text \<open>A turn in which nothing is readable, and a run with no turn at all.\<close>

definition quiet :: io_event where
  "quiet = \<lparr>ready = Inr [], master_read = Inr [], stdout_write = None, stdout_flush = None,
            stdin_read = Inr [], master_write = Inr 0, ctl_read = Inr [],
            ioctl_result = None\<rparr>"

definition parent_os :: "io_event list \<Rightarrow> os" where
  "parent_os evs = \<lparr>fork_result = Inr (7, 5), execve_result = None, events = evs,
                     kill_result = None, close_result = None\<rparr>"

text \<open>Turns in which one descriptor is readable, for the master descriptor 5.\<close>

definition master_says :: "bytes \<Rightarrow> io_event" where
  "master_says b = quiet\<lparr>ready := Inr [5], master_read := Inr b\<rparr>"

definition stdin_says :: "bytes \<Rightarrow> nat \<Rightarrow> io_event" where
  "stdin_says b n = quiet\<lparr>ready := Inr [0], stdin_read := Inr b, master_write := Inr n\<rparr>"

definition ctl_says :: "bytes \<Rightarrow> io_event" where
  "ctl_says b = quiet\<lparr>ready := Inr [3], ctl_read := Inr b\<rparr>"

definition sample_argv :: "string list" where
  "sample_argv = [''pty-helper.py'', ''/bin/sh'', ''-i'']"

text \<open>A write that put the whole buffer on its descriptor.\<close>

fun complete_write :: "call \<Rightarrow> bool" where
  "complete_write (Write d buf res) = (res = Inr (length buf))"
| "complete_write _ = True"

section \<open>The window-size record and its bytes\<close>

lemma u16_roundtrip: "u16_bytes bo x = [a, b] \<Longrightarrow> u16_of bo a b = x"
  by (cases bo) (auto simp: u16_bytes_def u16_of_def intro!: bit_word_eqI simp: bit_simps)

lemma byte_high_bits: "\<not> bit (a :: byte) (8 + n)"
proof
  assume "bit a (8 + n)"
  then have "8 + n < LENGTH(8)" by (rule bit_imp_le_length)
  then show False by simp
qed

lemma u16_bytes_of: "u16_bytes bo (u16_of bo a b) = [a, b]"
  by (cases bo) (auto simp: u16_bytes_def u16_of_def bit_simps byte_high_bits intro!: bit_word_eqI)

lemma decode_winsize_record: "decode_winsize bo (winsize_record bo s) = Some s"
  by (cases bo) (simp_all add: winsize_record_def u16_bytes_def u16_of_def, (rule winsize.equality; simp; rule bit_word_eqI; auto simp: bit_simps)+)

lemma length_winsize_record: "length (winsize_record bo s) = 8"
  by (cases bo) (simp_all add: winsize_record_def u16_bytes_def)

lemma winsize_record_decode:
  "length w = 8 \<Longrightarrow> \<exists>s. decode_winsize bo w = Some s \<and> winsize_record bo s = w"
proof -
  assume "length w = 8"
  then obtain a b c d e f g h where w: "w = [a, b, c, d, e, f, g, h]"
    by (auto simp: length_Suc_conv eval_nat_numeral)
  show ?thesis
    unfolding w by (simp add: winsize_record_def u16_bytes_of)
qed

section \<open>One turn of the loop\<close>

lemma loop_turn:
  assumes "select_call fds (ready ev) = Inr rfds" and "body fd fds rfds ev = (lb, fds', fl)"
  shows "loop fd fds (ev # evs) =
     (case fl of
        Break \<Rightarrow> Some (Select fds (Inr rfds) # lb, Broke)
      | Raise e \<Rightarrow> Some (Select fds (Inr rfds) # lb, Raised e)
      | _ \<Rightarrow>
          (case loop fd fds' evs of
             None \<Rightarrow> None
           | Some (l', r) \<Rightarrow> Some (Select fds (Inr rfds) # lb @ l', r)))"
  using assms by (simp add: Let_def)

declare loop.simps(2) [simp del]

lemma body_master_eof:
  "fd \<in> set rfds \<Longrightarrow> master_read ev = Inr [] \<Longrightarrow>
   body fd fds rfds ev = ([Read fd 32768 (Inr [])], fds, Break)"
  by (simp add: body_def handle_master_def os_read_def)

lemma body_stdin_eof:
  "(if fd \<in> set rfds then handle_master fd ev else ([], Next)) = (l1, Next) \<Longrightarrow>
   0 \<in> set rfds \<Longrightarrow> stdin_read ev = Inr [] \<Longrightarrow>
   body fd fds rfds ev = (l1 @ [Read 0 32768 (Inr [])], fds, Break)"
  by (simp add: body_def handle_stdin_def os_read_def)

lemma body_ctl:
  "(if fd \<in> set rfds then handle_master fd ev else ([], Next)) = (l1, Next) \<Longrightarrow>
   (if 0 \<in> set rfds then handle_stdin fd ev else ([], Next)) = (l2, Next) \<Longrightarrow>
   3 \<in> set rfds \<Longrightarrow>
   body fd fds rfds ev =
     (case handle_ctl fd fds ev of (l3, fds', f3) \<Rightarrow> (l1 @ l2 @ l3, fds', f3))"
  by (simp add: body_def)

lemma handle_ctl_fds:
  "handle_ctl fd fds ev = (l, fds', fl) \<Longrightarrow>
   fds' = fds \<or> fds' = [fd, 0] \<and> os_read 8 (ctl_read ev) = Inr [] \<and> l = [Read 3 8 (Inr [])] \<and> fl = Next"
  by (auto simp: handle_ctl_def Let_def split: sum.splits option.splits if_splits)

lemma body_fds:
  "body fd fds rfds ev = (l, fds', fl) \<Longrightarrow>
   fds' = fds \<or>
   fds' = [fd, 0] \<and> 3 \<in> set rfds \<and> os_read 8 (ctl_read ev) = Inr [] \<and> fl = Next"
  using handle_ctl_fds [of fd fds ev]
  by (auto simp: body_def split: prod.splits if_splits)

text \<open>No handler calls \<^verbatim>\<open>os.kill\<close>, \<^verbatim>\<open>os.close\<close> or \<^verbatim>\<open>pty.fork\<close>.\<close>

lemma handle_master_calls: "c \<in> set (fst (handle_master fd ev)) \<Longrightarrow> \<not> is_kill c \<and> \<not> is_close c \<and> \<not> is_fork c"
  by (auto simp: handle_master_def Let_def split: sum.splits option.splits if_splits)

lemma handle_stdin_calls: "c \<in> set (fst (handle_stdin fd ev)) \<Longrightarrow> \<not> is_kill c \<and> \<not> is_close c \<and> \<not> is_fork c"
  by (auto simp: handle_stdin_def Let_def split: sum.splits option.splits if_splits)

lemma handle_ctl_calls: "c \<in> set (fst (handle_ctl fd fds ev)) \<Longrightarrow> \<not> is_kill c \<and> \<not> is_close c \<and> \<not> is_fork c"
  by (auto simp: handle_ctl_def Let_def split: sum.splits option.splits if_splits)

lemma body_calls:
  assumes "body fd fds rfds ev = (l, fds', fl)" and "c \<in> set l"
  shows "\<not> is_kill c \<and> \<not> is_close c \<and> \<not> is_fork c"
  using assms handle_master_calls [of c fd ev] handle_stdin_calls [of c fd ev]
    handle_ctl_calls [of c fd fds ev]
  by (auto simp: body_def split: prod.splits if_splits)

section \<open>Runs of the loop\<close>

lemma loop_calls:
  "loop fd fds evs = Some (l, r) \<Longrightarrow> c \<in> set l \<Longrightarrow> \<not> is_kill c \<and> \<not> is_close c \<and> \<not> is_fork c"
proof (induction evs arbitrary: fds l)
  case Nil
  then show ?case by simp
next
  case (Cons ev evs)
  show ?case
  proof (cases "select_call fds (ready ev)")
    case (Inl e)
    with Cons.prems show ?thesis by (auto simp: loop.simps Let_def)
  next
    case (Inr rfds)
    obtain lb fds' fl where b: "body fd fds rfds ev = (lb, fds', fl)"
      by (cases "body fd fds rfds ev") auto
    have lb: "c \<in> set lb \<Longrightarrow> \<not> is_kill c \<and> \<not> is_close c \<and> \<not> is_fork c"
      using body_calls [OF b] by blast
    show ?thesis
    proof (cases "fl = Next \<or> fl = Continue")
      case True
      then obtain l' where l': "loop fd fds' evs = Some (l', r)" and l: "l = Select fds (Inr rfds) # lb @ l'"
        using Cons.prems(1) by (auto simp: loop_turn [OF Inr b] split: option.splits)
      from Cons.IH [OF l'] lb Cons.prems(2) l show ?thesis by auto
    next
      case False
      then have "l = Select fds (Inr rfds) # lb"
        using Cons.prems(1) by (cases fl) (auto simp: loop_turn [OF Inr b])
      with lb Cons.prems(2) show ?thesis by auto
    qed
  qed
qed

lemma filter_loop_calls:
  assumes "loop fd fds evs = Some (l, r)"
  shows "filter is_kill l = []" and "filter is_close l = []"
  using loop_calls [OF assms] by (auto simp: filter_empty_conv)

lemma watch_sets_Nil [simp]: "watch_sets [] = []"
  by (simp add: watch_sets_def)

lemma watch_sets_append: "watch_sets (a @ b) = watch_sets a @ watch_sets b"
  by (simp add: watch_sets_def)

lemma watch_sets_handle_master: "watch_sets (fst (handle_master fd ev)) = []"
  by (auto simp: watch_sets_def handle_master_def Let_def split: sum.splits option.splits)

lemma watch_sets_handle_stdin: "watch_sets (fst (handle_stdin fd ev)) = []"
  by (auto simp: watch_sets_def handle_stdin_def Let_def split: sum.splits option.splits)

lemma watch_sets_handle_ctl: "watch_sets (fst (handle_ctl fd fds ev)) = []"
  by (auto simp: watch_sets_def handle_ctl_def Let_def split: sum.splits option.splits)

lemma watch_sets_body: "body fd fds rfds ev = (l, fds', fl) \<Longrightarrow> watch_sets l = []"
  using watch_sets_handle_master [of fd ev] watch_sets_handle_stdin [of fd ev]
    watch_sets_handle_ctl [of fd fds ev]
  by (auto simp: body_def watch_sets_append split: prod.splits if_splits)

lemma loop_None_turn:
  assumes "loop fd fds (ev # evs) = None"
  obtains rfds lb fds' fl where "select_call fds (ready ev) = Inr rfds"
    and "body fd fds rfds ev = (lb, fds', fl)" and "fl = Next \<or> fl = Continue"
    and "loop fd fds' evs = None"
proof (cases "select_call fds (ready ev)")
  case (Inl e)
  with assms show ?thesis by (simp add: loop.simps Let_def)
next
  case (Inr rfds)
  obtain lb fds' fl where b: "body fd fds rfds ev = (lb, fds', fl)"
    by (cases "body fd fds rfds ev") auto
  from assms Inr b have "fl = Next \<or> fl = Continue" and "loop fd fds' evs = None"
    by (cases fl; auto simp: loop_turn split: option.splits)+
  with that Inr b show ?thesis by blast
qed

text \<open>
  A run that has not ended can be continued: the turns so far leave a log and a watch
  set, and the loop goes on from there with the events that follow.
\<close>

lemma loop_prefix:
  "loop fd fds pre = None \<Longrightarrow>
   \<exists>lp fds' n m.
     (\<forall>evs. loop fd fds (pre @ evs) =
        (case loop fd fds' evs of None \<Rightarrow> None | Some (l, r) \<Rightarrow> Some (lp @ l, r))) \<and>
     watch_sets lp = replicate n fds @ replicate m [fd, 0] \<and>
     (fds' = fds \<and> m = 0 \<or> fds' = [fd, 0])"
proof (induction pre arbitrary: fds)
  case Nil
  have "\<forall>evs. loop fd fds ([] @ evs) =
        (case loop fd fds evs of None \<Rightarrow> None | Some (l, r) \<Rightarrow> Some ([] @ l, r))"
    by (auto split: option.splits)
  moreover have "watch_sets [] = replicate 0 fds @ replicate 0 [fd, 0]"
    by (simp add: watch_sets_def)
  ultimately show ?case by blast
next
  case (Cons ev pre)
  from Cons.prems obtain rfds lb f1 fl where s: "select_call fds (ready ev) = Inr rfds"
    and b: "body fd fds rfds ev = (lb, f1, fl)" and fl: "fl = Next \<or> fl = Continue"
    and rest: "loop fd f1 pre = None"
    by (rule loop_None_turn)
  from Cons.IH [OF rest] obtain lp fds' n m where
    eq: "\<And>evs. loop fd f1 (pre @ evs) =
        (case loop fd fds' evs of None \<Rightarrow> None | Some (l, r) \<Rightarrow> Some (lp @ l, r))"
    and ws: "watch_sets lp = replicate n f1 @ replicate m [fd, 0]"
    and st: "fds' = f1 \<and> m = 0 \<or> fds' = [fd, 0]"
    by blast
  let ?lp = "Select fds (Inr rfds) # lb @ lp"
  have 1: "\<forall>evs. loop fd fds ((ev # pre) @ evs) =
        (case loop fd fds' evs of None \<Rightarrow> None | Some (l, r) \<Rightarrow> Some (?lp @ l, r))"
    using fl by (auto simp: loop_turn [OF s b] eq split: option.splits)
  have wlb: "watch_sets ?lp = fds # replicate n f1 @ replicate m [fd, 0]"
    using watch_sets_body [OF b] ws by (simp add: watch_sets_def)
  from body_fds [OF b] have "f1 = fds \<or> f1 = [fd, 0]" by blast
  then show ?case
  proof
    assume f1: "f1 = fds"
    have "watch_sets ?lp = replicate (Suc n) fds @ replicate m [fd, 0]"
      using wlb f1 by simp
    with 1 st f1 show ?thesis by blast
  next
    assume f1: "f1 = [fd, 0]"
    have "watch_sets ?lp = replicate (Suc 0) fds @ replicate (n + m) [fd, 0]"
      using wlb f1 by (simp add: replicate_add)
    moreover have "fds' = [fd, 0]" using st f1 by auto
    ultimately show ?thesis using 1 by blast
  qed
qed

lemma loop_watch_sets:
  "loop fd fds evs = Some (l, r) \<Longrightarrow>
   \<exists>n m. watch_sets l = replicate (Suc n) fds @ replicate m [fd, 0]"
proof (induction evs arbitrary: fds l)
  case Nil
  then show ?case by simp
next
  case (Cons ev evs)
  show ?case
  proof (cases "select_call fds (ready ev)")
    case (Inl e)
    with Cons.prems have "l = [Select fds (Inl e)]" by (auto simp: loop.simps Let_def)
    then have "watch_sets l = replicate (Suc 0) fds @ replicate 0 [fd, 0]"
      by (simp add: watch_sets_def)
    then show ?thesis by blast
  next
    case (Inr rfds)
    obtain lb f1 fl where b: "body fd fds rfds ev = (lb, f1, fl)"
      by (cases "body fd fds rfds ev") auto
    have wb: "watch_sets lb = []" by (rule watch_sets_body [OF b])
    show ?thesis
    proof (cases "fl = Next \<or> fl = Continue")
      case False
      then have "l = Select fds (Inr rfds) # lb"
        using Cons.prems Inr b by (cases fl) (auto simp: loop_turn [OF Inr b])
      then have "watch_sets l = replicate (Suc 0) fds @ replicate 0 [fd, 0]"
        using wb by (simp add: watch_sets_def)
      then show ?thesis by blast
    next
      case True
      then obtain l' where l': "loop fd f1 evs = Some (l', r)"
        and l: "l = Select fds (Inr rfds) # lb @ l'"
        using Cons.prems by (auto simp: loop_turn [OF Inr b] split: option.splits)
      from Cons.IH [OF l'] obtain n m where
        w': "watch_sets l' = replicate (Suc n) f1 @ replicate m [fd, 0]" by blast
      have wl: "watch_sets l = fds # watch_sets l'"
        using l wb by (simp add: watch_sets_def)
      from body_fds [OF b] have "f1 = fds \<or> f1 = [fd, 0]" by blast
      then show ?thesis
      proof
        assume "f1 = fds"
        then have "watch_sets l = replicate (Suc (Suc n)) fds @ replicate m [fd, 0]"
          using wl w' by simp
        then show ?thesis by blast
      next
        assume "f1 = [fd, 0]"
        then have "watch_sets l = replicate (Suc 0) fds @ replicate (Suc n + m) [fd, 0]"
          using wl w' by (simp add: replicate_add)
        then show ?thesis by blast
      qed
    qed
  qed
qed

section \<open>The cleanup and \<^verbatim>\<open>main\<close>\<close>

lemma cleanup_starts: "\<exists>lc. fst (cleanup pid fd w) = Kill pid 9 (kill_result w) # lc"
  by (auto simp: cleanup_def Let_def split: option.splits)

lemma main_parent:
  assumes "2 \<le> length argv" and "fork_result w = Inr (pid, fd)" and "pid \<noteq> 0"
    and "loop fd [fd, 0, 3] (events w) = Some (l, r)"
  shows "main argv environ w =
     Some (Pty_fork (Inr (pid, fd)) # l @ fst (cleanup pid fd w),
           (case snd (cleanup pid fd w) of
              Some e' \<Rightarrow> Propagated e'
            | None \<Rightarrow>
                (case r of
                   Broke \<Rightarrow> Returned
                 | Raised e \<Rightarrow> if e = KeyboardInterrupt then Returned else Propagated e)))"
  using assms by (simp add: main_def Let_def split: prod.splits)

section \<open>The window size and the relayed bytes\<close>

lemma window_size_append:
  "window_size bo fd ws (a @ b) = window_size bo fd (window_size bo fd ws a) b"
  by (simp add: window_size_def)

lemma window_size_master:
  "(if c then handle_master fd ev else ([], Next)) = (l1, f) \<Longrightarrow> window_size bo fd ws l1 = ws"
  by (auto simp: window_size_def handle_master_def Let_def split: if_splits sum.splits option.splits)

lemma window_size_stdin:
  "(if c then handle_stdin fd ev else ([], Next)) = (l2, f) \<Longrightarrow> window_size bo fd ws l2 = ws"
  by (auto simp: window_size_def handle_stdin_def Let_def split: if_splits sum.splits option.splits)

lemma delivered_append: "delivered (a @ b) = delivered a @ delivered b"
  by (simp add: delivered_def)

lemma forwarded_append: "forwarded fd (a @ b) = forwarded fd a @ forwarded fd b"
  by (simp add: forwarded_def)

text \<open>
  When every write to the master put its whole buffer there, the master has taken
  exactly the bytes that were read from descriptor 0.
\<close>

lemma relay_master2:
  "fd \<noteq> 0 \<Longrightarrow> (if c then handle_master fd ev else ([], Next)) = (l1, f) \<Longrightarrow>
   forwarded fd l1 = delivered l1"
  by (auto simp: forwarded_def delivered_def handle_master_def Let_def
      split: if_splits sum.splits option.splits)

lemma relay_stdin2:
  "(if c then handle_stdin fd ev else ([], Next)) = (l2, f) \<Longrightarrow> list_all complete_write l2 \<Longrightarrow>
   forwarded fd l2 = delivered l2"
  by (auto simp: forwarded_def delivered_def handle_stdin_def Let_def
      split: if_splits sum.splits option.splits)

lemma relay_ctl2:
  "(if c then handle_ctl fd fds ev else ([], fds, Next)) = (l3, f', f) \<Longrightarrow>
   forwarded fd l3 = delivered l3"
  by (auto simp: forwarded_def delivered_def handle_ctl_def Let_def
      split: if_splits sum.splits option.splits)

lemma relay_body:
  assumes "body fd fds rfds ev = (lb, fds', fl)" and "fd \<noteq> 0" and "list_all complete_write lb"
  shows "forwarded fd lb = delivered lb"
proof -
  obtain l1 f1 where m: "(if fd \<in> set rfds then handle_master fd ev else ([], Next)) = (l1, f1)"
    by (cases "if fd \<in> set rfds then handle_master fd ev else ([], Next)") auto
  obtain l2 f2 where s: "(if 0 \<in> set rfds then handle_stdin fd ev else ([], Next)) = (l2, f2)"
    by (cases "if 0 \<in> set rfds then handle_stdin fd ev else ([], Next)") auto
  obtain l3 g3 f3 where c: "(if 3 \<in> set rfds then handle_ctl fd fds ev else ([], fds, Next)) = (l3, g3, f3)"
    by (cases "if 3 \<in> set rfds then handle_ctl fd fds ev else ([], fds, Next)") auto
  have lb: "lb = l1 \<or> lb = l1 @ l2 \<or> lb = l1 @ l2 @ l3"
    using assms(1) unfolding body_def m s c by (auto split: if_splits)
  have r1: "forwarded fd l1 = delivered l1" by (rule relay_master2 [OF assms(2) m])
  have r3: "forwarded fd l3 = delivered l3" by (rule relay_ctl2 [OF c])
  have r2: "list_all complete_write l2 \<Longrightarrow> forwarded fd l2 = delivered l2"
    by (rule relay_stdin2 [OF s])
  from lb assms(3) r1 r2 r3 show ?thesis
    by (auto simp: forwarded_append delivered_append)
qed

lemma relay_loop:
  "loop fd fds evs = Some (l, r) \<Longrightarrow> fd \<noteq> 0 \<Longrightarrow> list_all complete_write l \<Longrightarrow>
   forwarded fd l = delivered l"
proof (induction evs arbitrary: fds l)
  case Nil
  then show ?case by simp
next
  case (Cons ev evs)
  show ?case
  proof (cases "select_call fds (ready ev)")
    case (Inl e)
    with Cons.prems(1) have "l = [Select fds (Inl e)]" by (auto simp: loop.simps Let_def)
    then show ?thesis by (simp add: forwarded_def delivered_def)
  next
    case (Inr rfds)
    obtain lb f1 fl where b: "body fd fds rfds ev = (lb, f1, fl)"
      by (cases "body fd fds rfds ev") auto
    have sel: "forwarded fd [Select fds (Inr rfds)] = delivered [Select fds (Inr rfds)]"
      by (simp add: forwarded_def delivered_def)
    show ?thesis
    proof (cases "fl = Next \<or> fl = Continue")
      case False
      then have l: "l = [Select fds (Inr rfds)] @ lb"
        using Cons.prems(1) by (cases fl) (auto simp: loop_turn [OF Inr b])
      then have "list_all complete_write lb" using Cons.prems(3) by simp
      from relay_body [OF b Cons.prems(2) this] sel l show ?thesis
        by (simp only: forwarded_append delivered_append)
    next
      case True
      then obtain l' where l': "loop fd f1 evs = Some (l', r)"
        and l: "l = [Select fds (Inr rfds)] @ lb @ l'"
        using Cons.prems(1) by (auto simp: loop_turn [OF Inr b] split: option.splits)
      have c: "list_all complete_write lb" "list_all complete_write l'"
        using Cons.prems(3) l by simp_all
      from relay_body [OF b Cons.prems(2) c(1)] Cons.IH [OF l' Cons.prems(2) c(2)] sel l
      show ?thesis by (simp only: forwarded_append delivered_append)
    qed
  qed
qed

section \<open>The claims\<close>

lemmas run_defs = quiet_def parent_os_def master_says_def stdin_says_def ctl_says_def
  sample_argv_def loop.simps select_call_def body_def handle_master_def handle_stdin_def
  handle_ctl_def os_read_def os_write_def master_except_def other_except_def Let_def
  main_def cleanup_def

text \<open>
  Claim C1: every byte read from descriptor 0 before end of input reaches the master
  descriptor, in order and unchanged, also when a write to the master is short.
  \<^verbatim>\<open>main\<close> calls \<^verbatim>\<open>os.write(fd, buf)\<close> once for each buffer and drops the count
  it returns (line 64). In the run below three bytes are read, the write takes one of
  them, and the other two are never written: the master has taken one byte when
  \<^verbatim>\<open>main\<close> returns. With the writes complete the bytes do agree, see \<open>relay_loop\<close>.
\<close>

theorem C1_short_write:
  "\<exists>lg. main sample_argv Map.empty (parent_os [stdin_says [1, 2, 3] 1, stdin_says [] 0]) =
          Some (lg, Returned) \<and>
        delivered lg = [1, 2, 3] \<and> forwarded 5 lg = [1]"
  by (simp add: run_defs delivered_def forwarded_def)

text \<open>
  Claim C2, as the specification words it: whichever way the loop ends, the cleanup
  kills the child and then closes the master descriptor. The \<^verbatim>\<open>except\<close> clause of
  the kill (line 87) names \<^verbatim>\<open>ProcessLookupError\<close> only, so any other exception of
  \<^verbatim>\<open>os.kill\<close> leaves the \<^verbatim>\<open>finally\<close> clause before line 90. In the run below the
  loop ends at end of input, the kill raises \<^verbatim>\<open>PermissionError\<close>, and \<^verbatim>\<open>main\<close>
  ends with that exception without having closed the master.
\<close>

theorem C2_kill_eperm_counterexample:
  "main sample_argv Map.empty
     ((parent_os [stdin_says [] 0])\<lparr>kill_result := Some (OSError EPERM)\<rparr>) =
   Some ([Pty_fork (Inr (7, 5)), Select [5, 0, 3] (Inr [0]), Read 0 32768 (Inr []),
          Kill 7 9 (Some (OSError EPERM))], Propagated (OSError EPERM))"
  by (simp add: run_defs)

text \<open>
  Claim C2, amended: whichever way the loop ends (a \<^verbatim>\<open>break\<close> after a zero-length
  read or an error, or an exception such as \<^verbatim>\<open>KeyboardInterrupt\<close>), the cleanup runs
  once and starts with \<^verbatim>\<open>os.kill(pid, 9)\<close>, the only kill of the run, whatever the
  kill and the close answer. When the kill succeeds or finds no process, one
  \<^verbatim>\<open>os.close(fd)\<close> follows, the only close of the run, and when that close succeeds
  or fails with an \<^verbatim>\<open>OSError\<close> the cleanup raises nothing. When the kill raises
  anything else, there is no close and \<^verbatim>\<open>main\<close> ends with that exception.
\<close>

theorem C2_cleanup_once:
  assumes "2 \<le> length argv" and "fork_result w = Inr (pid, fd)" and "pid \<noteq> 0"
    and "loop fd [fd, 0, 3] (events w) = Some (l, r)"
  shows "\<exists>lg lc out.
     main argv environ w = Some (lg, out) \<and>
     lg = Pty_fork (Inr (pid, fd)) # l @ Kill pid 9 (kill_result w) # lc \<and>
     filter is_kill lg = [Kill pid 9 (kill_result w)] \<and>
     (if kill_result w = None \<or> kill_result w = Some (OSError ESRCH)
      then lc = [Close fd (close_result w)] \<and>
           filter is_close lg = [Close fd (close_result w)] \<and>
           (close_result w = None \<or> (\<exists>n. close_result w = Some (OSError n)) \<longrightarrow>
              snd (cleanup pid fd w) = None \<and>
              out = (case r of
                       Broke \<Rightarrow> Returned
                     | Raised e \<Rightarrow> if e = KeyboardInterrupt then Returned else Propagated e))
      else lc = [] \<and> filter is_close lg = [] \<and>
           (\<exists>e. kill_result w = Some e \<and> snd (cleanup pid fd w) = Some e \<and>
                out = Propagated e))"
proof -
  have p: "is_ProcessLookupError x \<longleftrightarrow> x = OSError ESRCH" for x
    by (cases x rule: is_ProcessLookupError.cases) auto
  note m = main_parent [OF assms, of environ]
  note f = filter_loop_calls [OF assms(4)]
  show ?thesis
  proof (cases "kill_result w = None \<or> kill_result w = Some (OSError ESRCH)")
    case True
    then have c: "fst (cleanup pid fd w) = [Kill pid 9 (kill_result w), Close fd (close_result w)]"
      by (auto simp: cleanup_def Let_def)
    have s: "close_result w = None \<or> (\<exists>n. close_result w = Some (OSError n)) \<Longrightarrow>
        snd (cleanup pid fd w) = None"
      using True by (auto simp: cleanup_def Let_def)
    show ?thesis
      using True m f c s by auto
  next
    case False
    then obtain e where e: "kill_result w = Some e" "e \<noteq> OSError ESRCH" by auto
    then have c: "cleanup pid fd w = ([Kill pid 9 (kill_result w)], Some e)"
      by (simp add: cleanup_def Let_def p)
    show ?thesis
      using False m f c e by auto
  qed
qed

theorem C2_cleanup_once_witness:
  "main sample_argv Map.empty
     ((parent_os [stdin_says [] 0])
        \<lparr>kill_result := Some (OSError ESRCH), close_result := Some (OSError EBADF)\<rparr>) =
   Some ([Pty_fork (Inr (7, 5)), Select [5, 0, 3] (Inr [0]), Read 0 32768 (Inr []),
          Kill 7 9 (Some (OSError ESRCH)), Close 5 (Some (OSError EBADF))], Returned) \<and>
   main sample_argv Map.empty (parent_os [quiet\<lparr>ready := Inl KeyboardInterrupt\<rparr>]) =
   Some ([Pty_fork (Inr (7, 5)), Select [5, 0, 3] (Inl KeyboardInterrupt),
          Kill 7 9 None, Close 5 None], Returned) \<and>
   main sample_argv Map.empty
     ((parent_os [master_says []])\<lparr>kill_result := Some (OSError EPERM)\<rparr>) =
   Some ([Pty_fork (Inr (7, 5)), Select [5, 0, 3] (Inr [5]), Read 5 32768 (Inr []),
          Kill 7 9 (Some (OSError EPERM))], Propagated (OSError EPERM))"
  using C2_cleanup_once [of sample_argv
      "(parent_os [stdin_says [] 0])
        \<lparr>kill_result := Some (OSError ESRCH), close_result := Some (OSError EBADF)\<rparr>"
      7 5 "[Select [5, 0, 3] (Inr [0]), Read 0 32768 (Inr [])]" Broke Map.empty]
    C2_cleanup_once [of sample_argv "parent_os [quiet\<lparr>ready := Inl KeyboardInterrupt\<rparr>]"
      7 5 "[Select [5, 0, 3] (Inl KeyboardInterrupt)]" "Raised KeyboardInterrupt" Map.empty]
    C2_cleanup_once [of sample_argv
      "(parent_os [master_says []])\<lparr>kill_result := Some (OSError EPERM)\<rparr>"
      7 5 "[Select [5, 0, 3] (Inr [5]), Read 5 32768 (Inr [])]" Broke Map.empty]
  by (simp add: run_defs)

text \<open>
  Claim C3: at any turn of a run, a zero-length read of the master ends the loop, and so
  does a zero-length read of descriptor 0 (which is read when the master handler let
  the turn go on); the events after that turn are not looked at, and the next call
  \<^verbatim>\<open>main\<close> makes is the kill of the cleanup.
\<close>

theorem C3_eof_ends_loop:
  assumes "2 \<le> length argv" and "fork_result w = Inr (pid, fd)" and "pid \<noteq> 0"
    and "events w = pre @ ev # evs"
    and "loop fd [fd, 0, 3] pre = None"
    and "ready ev = Inr rdy"
    and "d = fd \<and> fd \<in> set rdy \<and> master_read ev = Inr [] \<or>
         d = 0 \<and> 0 \<in> set rdy \<and> stdin_read ev = Inr [] \<and>
           (fd \<notin> set rdy \<or> snd (handle_master fd ev) = Next)"
  shows "\<exists>l lc out.
     loop fd [fd, 0, 3] (pre @ ev # evs) = Some (l @ [Read d 32768 (Inr [])], Broke) \<and>
     main argv environ w =
       Some (Pty_fork (Inr (pid, fd)) # l @
               [Read d 32768 (Inr []), Kill pid 9 (kill_result w)] @ lc, out)"
proof -
  from loop_prefix [OF assms(5)] obtain lp fds' where
    eq: "\<And>more. loop fd [fd, 0, 3] (pre @ more) =
        (case loop fd fds' more of None \<Rightarrow> None | Some (l, r) \<Rightarrow> Some (lp @ l, r))"
    and fds': "fds' = [fd, 0, 3] \<or> fds' = [fd, 0]"
    by blast
  define rfds where "rfds = filter (\<lambda>x. x \<in> set rdy) fds'"
  have sel: "select_call fds' (ready ev) = Inr rfds"
    by (simp add: select_call_def assms(6) rfds_def)
  have in_fd: "fd \<in> set rfds \<longleftrightarrow> fd \<in> set rdy" and in_0: "0 \<in> set rfds \<longleftrightarrow> 0 \<in> set rdy"
    using fds' by (auto simp: rfds_def)
  have "\<exists>lb. body fd fds' rfds ev = (lb @ [Read d 32768 (Inr [])], fds', Break)"
  proof -
    from assms(7) consider
      (master) "d = fd" "fd \<in> set rdy" "master_read ev = Inr []"
    | (stdin) "d = 0" "0 \<in> set rdy" "stdin_read ev = Inr []"
        "fd \<notin> set rdy \<or> snd (handle_master fd ev) = Next"
      by blast
    then show ?thesis
    proof cases
      case master
      then have "body fd fds' rfds ev = ([] @ [Read d 32768 (Inr [])], fds', Break)"
        using body_master_eof [of fd rfds ev fds'] in_fd by simp
      then show ?thesis by blast
    next
      case stdin
      define l1 where "l1 = (if fd \<in> set rdy then fst (handle_master fd ev) else [])"
      have "(if fd \<in> set rfds then handle_master fd ev else ([], Next)) = (l1, Next)"
        using stdin(4) in_fd by (auto simp: l1_def prod_eq_iff)
      then have "body fd fds' rfds ev = (l1 @ [Read d 32768 (Inr [])], fds', Break)"
        using body_stdin_eof [of fd rfds ev l1 fds'] stdin(1-3) in_0 by simp
      then show ?thesis by blast
    qed
  qed
  then obtain lb where b: "body fd fds' rfds ev = (lb @ [Read d 32768 (Inr [])], fds', Break)"
    by blast
  let ?l = "lp @ Select fds' (Inr rfds) # lb"
  have lo: "loop fd [fd, 0, 3] (pre @ ev # evs) = Some (?l @ [Read d 32768 (Inr [])], Broke)"
    by (simp add: eq loop_turn [OF sel b])
  obtain lc where lc: "fst (cleanup pid fd w) = Kill pid 9 (kill_result w) # lc"
    using cleanup_starts by blast
  have "\<exists>out. main argv environ w =
       Some (Pty_fork (Inr (pid, fd)) # ?l @
               [Read d 32768 (Inr []), Kill pid 9 (kill_result w)] @ lc, out)"
    using main_parent [OF assms(1-3), of "?l @ [Read d 32768 (Inr [])]" Broke environ] lo
    by (simp add: assms(4) lc)
  with lo show ?thesis by blast
qed

theorem C3_eof_ends_loop_witness:
  "loop 5 [5, 0, 3] [master_says [104, 105]] = None \<and>
   main sample_argv Map.empty (parent_os [master_says [104, 105], stdin_says [] 0, quiet]) =
   Some ([Pty_fork (Inr (7, 5)),
          Select [5, 0, 3] (Inr [5]), Read 5 32768 (Inr [104, 105]),
          Stdout_write [104, 105] None, Stdout_flush None,
          Select [5, 0, 3] (Inr [0]), Read 0 32768 (Inr []),
          Kill 7 9 None, Close 5 None], Returned)"
  using C3_eof_ends_loop [of sample_argv
      "parent_os [master_says [104, 105], stdin_says [] 0, quiet]" 7 5
      "[master_says [104, 105]]" "stdin_says [] 0" "[quiet]" "[0]" 0 Map.empty]
  by (simp add: run_defs)



text \<open>
  Claim C5: a read of eight bytes from descriptor 3 is handed unchanged to
  \<^verbatim>\<open>ioctl(fd, TIOCSWINSZ, winsize)\<close> on the master; the bytes are the record of one window
  size, all four fields of which become the window size when the call succeeds, so the
  record of 24 rows and 80 columns sets 24 by 80 whatever the reserved fields hold. A
  read of one to seven bytes makes no \<^verbatim>\<open>ioctl\<close>, leaves the window size and the watch
  set alone, and the loop goes on.
\<close>

theorem C5_resize_record:
  assumes "select_call fds (ready ev) = Inr rfds"
    and "(if fd \<in> set rfds then handle_master fd ev else ([], Next)) = (l1, Next)"
    and "(if 0 \<in> set rfds then handle_stdin fd ev else ([], Next)) = (l2, Next)"
    and "3 \<in> set rfds" and "ctl_read ev = Inr w"
  shows "(length w = 8 \<longrightarrow>
            body fd fds rfds ev =
              (l1 @ l2 @ [Read 3 8 (Inr w), Ioctl fd TIOCSWINSZ w (ioctl_result ev)], fds,
               (case ioctl_result ev of None \<Rightarrow> Next | Some e \<Rightarrow> other_except e)) \<and>
            (\<exists>s. winsize_record bo s = w \<and>
                 window_size bo fd ws
                   (l1 @ l2 @ [Read 3 8 (Inr w), Ioctl fd TIOCSWINSZ w None]) = Some s)) \<and>
         (0 < length w \<and> length w < 8 \<longrightarrow>
            body fd fds rfds ev = (l1 @ l2 @ [Read 3 8 (Inr w)], fds, Next) \<and>
            window_size bo fd ws (l1 @ l2 @ [Read 3 8 (Inr w)]) = ws \<and>
            loop fd fds (ev # evs) =
              (case loop fd fds evs of
                 None \<Rightarrow> None
               | Some (l', r) \<Rightarrow> Some (Select fds (Inr rfds) # l1 @ l2 @ Read 3 8 (Inr w) # l', r)))"
proof (intro conjI impI)
  assume len: "length w = 8"
  have h: "handle_ctl fd fds ev =
      ([Read 3 8 (Inr w), Ioctl fd TIOCSWINSZ w (ioctl_result ev)], fds,
       (case ioctl_result ev of None \<Rightarrow> Next | Some e \<Rightarrow> other_except e))"
    using len by (simp add: handle_ctl_def os_read_def assms(5) split: option.splits)
  show "body fd fds rfds ev =
      (l1 @ l2 @ [Read 3 8 (Inr w), Ioctl fd TIOCSWINSZ w (ioctl_result ev)], fds,
       (case ioctl_result ev of None \<Rightarrow> Next | Some e \<Rightarrow> other_except e))"
    using body_ctl [OF assms(2,3,4), of fds] by (simp add: h)
  from winsize_record_decode [OF len, of bo] obtain s where
    s: "decode_winsize bo w = Some s" "winsize_record bo s = w" by blast
  have "window_size bo fd ws (l1 @ l2 @ [Read 3 8 (Inr w), Ioctl fd TIOCSWINSZ w None]) = Some s"
    by (simp add: window_size_append window_size_master [OF assms(2)]
          window_size_stdin [OF assms(3)])
       (simp add: window_size_def s)
  with s show "\<exists>s. winsize_record bo s = w \<and>
      window_size bo fd ws (l1 @ l2 @ [Read 3 8 (Inr w), Ioctl fd TIOCSWINSZ w None]) = Some s"
    by blast
next
  assume len: "0 < length w \<and> length w < 8"
  have h: "handle_ctl fd fds ev = ([Read 3 8 (Inr w)], fds, Next)"
    using len by (simp add: handle_ctl_def os_read_def assms(5))
  show b: "body fd fds rfds ev = (l1 @ l2 @ [Read 3 8 (Inr w)], fds, Next)"
    using body_ctl [OF assms(2,3,4), of fds] by (simp add: h)
  show "window_size bo fd ws (l1 @ l2 @ [Read 3 8 (Inr w)]) = ws"
    by (simp add: window_size_append window_size_master [OF assms(2)]
          window_size_stdin [OF assms(3)])
       (simp add: window_size_def)
  show "loop fd fds (ev # evs) =
      (case loop fd fds evs of
         None \<Rightarrow> None
       | Some (l', r) \<Rightarrow> Some (Select fds (Inr rfds) # l1 @ l2 @ Read 3 8 (Inr w) # l', r))"
    by (simp add: loop_turn [OF assms(1) b] split: option.splits)
qed

theorem C5_resize_record_witness:
  "winsize_record Little_endian \<lparr>ws_row = 24, ws_col = 80, ws_xpixel = 0, ws_ypixel = 0\<rparr> =
     [24, 0, 80, 0, 0, 0, 0, 0] \<and>
   body 5 [5, 0, 3] [3] (ctl_says [24, 0, 80, 0, 0, 0, 0, 0]) =
     ([Read 3 8 (Inr [24, 0, 80, 0, 0, 0, 0, 0]),
       Ioctl 5 TIOCSWINSZ [24, 0, 80, 0, 0, 0, 0, 0] None], [5, 0, 3], Next) \<and>
   window_size Little_endian 5 None
     [Read 3 8 (Inr [24, 0, 80, 0, 0, 0, 0, 0]),
      Ioctl 5 TIOCSWINSZ [24, 0, 80, 0, 0, 0, 0, 0] None] =
     Some \<lparr>ws_row = 24, ws_col = 80, ws_xpixel = 0, ws_ypixel = 0\<rparr> \<and>
   window_size Little_endian 5 None
     [Read 3 8 (Inr [24, 0, 80, 0, 7, 0, 9, 0]),
      Ioctl 5 TIOCSWINSZ [24, 0, 80, 0, 7, 0, 9, 0] None] =
     Some \<lparr>ws_row = 24, ws_col = 80, ws_xpixel = 7, ws_ypixel = 9\<rparr> \<and>
   loop 5 [5, 0, 3] [ctl_says [24, 0, 80], stdin_says [] 0] =
     Some ([Select [5, 0, 3] (Inr [3]), Read 3 8 (Inr [24, 0, 80]),
            Select [5, 0, 3] (Inr [0]), Read 0 32768 (Inr [])], Broke)"
  using C5_resize_record [of "[5, 0, 3]" "ctl_says [24, 0, 80, 0, 0, 0, 0, 0]" "[3]" 5 "[]" "[]"
      "[24, 0, 80, 0, 0, 0, 0, 0]" Little_endian None "[]"]
    C5_resize_record [of "[5, 0, 3]" "ctl_says [24, 0, 80]" "[3]" 5 "[]" "[]"
      "[24, 0, 80]" Little_endian None "[stdin_says [] 0]"]
  by (simp add: run_defs winsize_record_def u16_bytes_def u16_of_def window_size_def)

text \<open>
  Claim C6: when the read of the master raises \<^verbatim>\<open>OSError\<close>, the loop goes on with the
  next turn for \<^verbatim>\<open>EINTR\<close> and \<^verbatim>\<open>EAGAIN\<close>, with the same watch set and nothing
  written; for \<^verbatim>\<open>EIO\<close> and for every other error number it ends, with no call after
  the read.
\<close>

theorem C6_master_read_error:
  assumes "select_call fds (ready ev) = Inr rfds" and "fd \<in> set rfds"
    and "master_read ev = Inl (OSError n)"
  shows "loop fd fds (ev # evs) =
     (if n = EINTR \<or> n = EAGAIN then
        (case loop fd fds evs of
           None \<Rightarrow> None
         | Some (l, r) \<Rightarrow>
             Some (Select fds (Inr rfds) # Read fd 32768 (Inl (OSError n)) # l, r))
      else Some ([Select fds (Inr rfds), Read fd 32768 (Inl (OSError n))], Broke))"
proof -
  have "body fd fds rfds ev =
      ([Read fd 32768 (Inl (OSError n))], fds,
       if n = EINTR \<or> n = EAGAIN then Continue else Break)"
    using assms(2,3) by (simp add: body_def handle_master_def os_read_def master_except_def)
  from loop_turn [OF assms(1) this] show ?thesis
    by (simp split: option.splits)
qed

theorem C6_master_read_error_witness:
  "loop 5 [5, 0, 3] [quiet\<lparr>ready := Inr [5, 0], master_read := Inl (OSError EAGAIN)\<rparr>,
                     quiet\<lparr>ready := Inr [5], master_read := Inl (OSError EIO)\<rparr>] =
   Some ([Select [5, 0, 3] (Inr [5, 0]), Read 5 32768 (Inl (OSError EAGAIN)),
          Select [5, 0, 3] (Inr [5]), Read 5 32768 (Inl (OSError EIO))], Broke)"
  using C6_master_read_error [of "[5, 0, 3]"
      "quiet\<lparr>ready := Inr [5, 0], master_read := Inl (OSError EAGAIN)\<rparr>" "[5, 0]" 5 EAGAIN
      "[quiet\<lparr>ready := Inr [5], master_read := Inl (OSError EIO)\<rparr>]"]
    C6_master_read_error [of "[5, 0, 3]"
      "quiet\<lparr>ready := Inr [5], master_read := Inl (OSError EIO)\<rparr>" "[5]" 5 EIO "[]"]
  by (simp add: run_defs)



text \<open>
  Claim C8: in the child, \<^verbatim>\<open>os.execve\<close> is called with the path \<^verbatim>\<open>sys.argv[1]\<close>,
  the argument vector \<^verbatim>\<open>sys.argv[1:]\<close>, whose first element is that path, and the
  inherited environment in which \<^verbatim>\<open>TERM\<close> is \<^verbatim>\<open>xterm-256color\<close> and
  \<^verbatim>\<open>FORCE_COLOR\<close> is \<^verbatim>\<open>1\<close>, every other variable as inherited.
\<close>

theorem C8_child_launch:
  assumes "2 \<le> length argv" and "fork_result w = Inr (0, fd)"
  shows "\<exists>env. main argv environ w =
           Some ([Pty_fork (Inr (0, fd)), Execve (argv ! 1) (drop 1 argv) env (execve_result w)],
                 (case execve_result w of None \<Rightarrow> Replaced | Some e \<Rightarrow> Propagated e)) \<and>
         hd (drop 1 argv) = argv ! 1 \<and>
         env ''TERM'' = Some ''xterm-256color'' \<and>
         env ''FORCE_COLOR'' = Some ''1'' \<and>
         (\<forall>k. k \<noteq> ''TERM'' \<and> k \<noteq> ''FORCE_COLOR'' \<longrightarrow> env k = environ k)"
  using assms
  by (auto simp: main_def Let_def hd_drop_conv_nth split: option.splits)

theorem C8_child_launch_witness:
  "main sample_argv [''TERM'' \<mapsto> ''dumb'', ''HOME'' \<mapsto> ''/root'']
     ((parent_os [])\<lparr>fork_result := Inr (0, -1)\<rparr>) =
   Some ([Pty_fork (Inr (0, -1)),
          Execve ''/bin/sh'' [''/bin/sh'', ''-i'']
            [''TERM'' \<mapsto> ''xterm-256color'', ''HOME'' \<mapsto> ''/root'', ''FORCE_COLOR'' \<mapsto> ''1'']
            None],
         Replaced)"
  using C8_child_launch [of sample_argv "(parent_os [])\<lparr>fork_result := Inr (0, -1)\<rparr>" "-1"
      "[''TERM'' \<mapsto> ''dumb'', ''HOME'' \<mapsto> ''/root'']"]
  by (simp add: main_def Let_def sample_argv_def parent_os_def fun_upd_twist)

text \<open>
  Claim C9: a turn leaves the watch set as it is, or sets it to \<open>[fd, 0]\<close> after a
  zero-length read of descriptor 3; from \<open>[fd, 0]\<close> it never changes. So the watch
  sets of a run are \<open>[fd, 0, 3]\<close> for some turns and then \<open>[fd, 0]\<close> for the rest,
  in a run that ends and in one that has not ended yet.
\<close>

theorem C9_watch_set:
  "(body fd fds rfds ev = (lb, fds', fl) \<longrightarrow>
      fds' = fds \<or> fds' = [fd, 0] \<and> 3 \<in> set rfds \<and> os_read 8 (ctl_read ev) = Inr []) \<and>
   (body fd [fd, 0] rfds ev = (lb, fds', fl) \<longrightarrow> fds' = [fd, 0]) \<and>
   (loop fd [fd, 0, 3] evs = Some (l, r) \<longrightarrow>
      (\<exists>n m. watch_sets l = replicate (Suc n) [fd, 0, 3] @ replicate m [fd, 0])) \<and>
   (loop fd [fd, 0, 3] pre = None \<longrightarrow>
      (\<exists>lp fds'' n m.
         (\<forall>more. loop fd [fd, 0, 3] (pre @ more) =
            (case loop fd fds'' more of None \<Rightarrow> None | Some (l', r') \<Rightarrow> Some (lp @ l', r'))) \<and>
         watch_sets lp = replicate n [fd, 0, 3] @ replicate m [fd, 0] \<and>
         (fds'' = [fd, 0, 3] \<and> m = 0 \<or> fds'' = [fd, 0])))"
  using body_fds [of fd fds rfds ev lb fds' fl] body_fds [of fd "[fd, 0]" rfds ev lb fds' fl]
    loop_watch_sets [of fd "[fd, 0, 3]" evs l r] loop_prefix [of fd "[fd, 0, 3]" pre]
  by blast

theorem C9_watch_set_witness:
  "body 5 [5, 0, 3] [3] (ctl_says []) = ([Read 3 8 (Inr [])], [5, 0], Next) \<and>
   loop 5 [5, 0, 3] [ctl_says []] = None \<and>
   loop 5 [5, 0, 3] [quiet, ctl_says [], stdin_says [] 0] =
     Some ([Select [5, 0, 3] (Inr []), Select [5, 0, 3] (Inr [3]), Read 3 8 (Inr []),
            Select [5, 0] (Inr [0]), Read 0 32768 (Inr [])], Broke) \<and>
   watch_sets [Select [5, 0, 3] (Inr []), Select [5, 0, 3] (Inr [3]), Read 3 8 (Inr []),
            Select [5, 0] (Inr [0]), Read 0 32768 (Inr [])] = [[5, 0, 3], [5, 0, 3], [5, 0]]"
  using C9_watch_set [of 5 "[5, 0, 3]" "[3]" "ctl_says []" "[Read 3 8 (Inr [])]" "[5, 0]" Next
      "[quiet, ctl_says [], stdin_says [] 0]"
      "[Select [5, 0, 3] (Inr []), Select [5, 0, 3] (Inr [3]), Read 3 8 (Inr []),
            Select [5, 0] (Inr [0]), Read 0 32768 (Inr [])]" Broke "[ctl_says []]"]
  by (simp add: run_defs watch_sets_def)

text \<open>
  Claim C10: the cleanup closes the master exactly when the kill succeeded or raised
  \<^verbatim>\<open>ProcessLookupError\<close>; any other exception of the kill leaves the cleanup at once,
  is the exception the cleanup raises, and no close is made.
\<close>

theorem C10_close_needs_kill:
  "((\<exists>c. Close fd c \<in> set (fst (cleanup pid fd w))) \<longleftrightarrow>
      (kill_result w = None \<or> kill_result w = Some (OSError ESRCH))) \<and>
   (kill_result w = Some e \<and> e \<noteq> OSError ESRCH \<longrightarrow>
      cleanup pid fd w = ([Kill pid 9 (Some e)], Some e) \<and>
      filter is_close (fst (cleanup pid fd w)) = [])"
proof -
  have p: "is_ProcessLookupError x \<longleftrightarrow> x = OSError ESRCH" for x
    by (cases x rule: is_ProcessLookupError.cases) auto
  show ?thesis
    by (auto simp: cleanup_def Let_def p split: option.splits)
qed

theorem C10_close_needs_kill_witness:
  "cleanup 7 5 ((parent_os [])\<lparr>kill_result := Some (OSError EPERM)\<rparr>) =
     ([Kill 7 9 (Some (OSError EPERM))], Some (OSError EPERM)) \<and>
   cleanup 7 5 ((parent_os [])\<lparr>kill_result := Some (OSError ESRCH)\<rparr>) =
     ([Kill 7 9 (Some (OSError ESRCH)), Close 5 None], None)"
  using C10_close_needs_kill [of 5 7 "(parent_os [])\<lparr>kill_result := Some (OSError EPERM)\<rparr>"
      "OSError EPERM"]
    C10_close_needs_kill [of 5 7 "(parent_os [])\<lparr>kill_result := Some (OSError ESRCH)\<rparr>"
      "OSError EPERM"]
  by (simp add: parent_os_def cleanup_def)

end
